theory Spec2Isabelle
  imports Main "HOL-Library.Sublist" "HOL-Library.Monad_Syntax"
begin

section \<open>Strings of the chat bubble\<close>

text \<open>
  A JavaScript string is a sequence of UTF-16 code units. A code unit is modelled by its
  number, a string by the list of its code units, so that \<open>length\<close>, \<open>take\<close> and \<open>drop\<close>
  count what \<open>text.length\<close> and \<open>text.substring\<close> count. \<open>js\<close> reads an ASCII literal.
\<close>

type_synonym code_unit = nat
type_synonym jsstring = "code_unit list"

definition js :: "string \<Rightarrow> jsstring" where
  "js = map of_char"

text \<open>
  The character classes of ECMAScript regular expressions: \<open>\d\<close>, the line terminators
  that \<open>.\<close> refuses, and \<open>\s\<close> (white space and line terminators, which is also what
  \<open>trim\<close> strips).
\<close>

definition is_digit :: "code_unit \<Rightarrow> bool" where
  "is_digit c = (48 \<le> c \<and> c \<le> 57)"

definition line_terminator :: "code_unit \<Rightarrow> bool" where
  "line_terminator c = (c = 10 \<or> c = 13 \<or> c = 8232 \<or> c = 8233)"

definition white_space :: "code_unit \<Rightarrow> bool" where
  "white_space c =
     (c = 9 \<or> c = 11 \<or> c = 12 \<or> c = 32 \<or> c = 160 \<or> c = 5760
      \<or> (8192 \<le> c \<and> c \<le> 8202) \<or> c = 8239 \<or> c = 8287 \<or> c = 12288 \<or> c = 65279
      \<or> line_terminator c)"

definition startsWith :: "jsstring \<Rightarrow> jsstring \<Rightarrow> bool" where
  "startsWith s p = prefix p s"

fun str_includes :: "jsstring \<Rightarrow> jsstring \<Rightarrow> bool" where
  "str_includes [] p = (p = [])"
| "str_includes (c # cs) p = (prefix p (c # cs) \<or> str_includes cs p)"

definition substring :: "jsstring \<Rightarrow> nat \<Rightarrow> nat \<Rightarrow> jsstring" where
  "substring s a b = take (max a b - min a b) (drop (min a b) s)"

definition trim :: "jsstring \<Rightarrow> jsstring" where
  "trim s = rev (dropWhile white_space (rev (dropWhile white_space s)))"

text \<open>\<open>text.split('\n')\<close> and \<open>codeLines.join('\n')\<close>.\<close>

fun split_lines :: "jsstring \<Rightarrow> jsstring list" where
  "split_lines [] = [[]]"
| "split_lines (c # cs) =
     (if c = 10 then [] # split_lines cs
      else (case split_lines cs of [] \<Rightarrow> [[c]] | l # ls \<Rightarrow> (c # l) # ls))"

fun join_lines :: "jsstring list \<Rightarrow> jsstring" where
  "join_lines [] = []"
| "join_lines [l] = l"
| "join_lines (l # ls) = l @ 10 # join_lines ls"

section \<open>Regular expressions\<close>

text \<open>
  None of the regular expressions that are run with the \<open>g\<close> flag has an anchor or a
  look-around, so whether one matches at an offset depends on the suffix of the text at that
  offset only. Each is modelled by the function that, given this suffix, returns what a match
  starting there consumes (\<open>match[0]\<close>) and captures (\<open>match[1]\<close>, \<open>match[2]\<close>), or \<open>None\<close>.
\<close>

type_synonym regex = "jsstring \<Rightarrow> (jsstring \<times> jsstring list) option"

record regex_match =
  index :: nat
  matched :: jsstring
  groups :: "jsstring list"

text \<open>
  \<open>regex.test(text)\<close> from \<open>lastIndex = 0\<close>: the offsets are tried from left to right, the
  end of the text included.
\<close>

fun regex_test :: "regex \<Rightarrow> jsstring \<Rightarrow> bool" where
  "regex_test rx [] = (rx [] \<noteq> None)"
| "regex_test rx (c # cs) = (rx (c # cs) \<noteq> None \<or> regex_test rx cs)"

text \<open>
  The loop \<open>while ((match = regex.exec(text)) !== null) { push }\<close>. \<open>s\<close> is the text from
  \<open>lastIndex = i\<close> on. \<open>exec\<close> returns the leftmost match at or after \<open>lastIndex\<close> and moves
  \<open>lastIndex\<close> to the end of that match; it returns \<open>null\<close> once no offset matches. Nothing in
  the loop makes it end when a match is empty: \<open>lastIndex\<close> stays where it is and the same
  match is found again. The loop is therefore a partial function, and \<open>None\<close> is its not
  returning.
\<close>

partial_function (option) exec_all :: "regex \<Rightarrow> nat \<Rightarrow> jsstring \<Rightarrow> regex_match list option" where
  "exec_all rx i s =
     (case rx s of
        None \<Rightarrow> (case s of [] \<Rightarrow> Some [] | c # cs \<Rightarrow> exec_all rx (Suc i) cs)
      | Some (m, gs) \<Rightarrow>
          do {
            ms \<leftarrow> exec_all rx (i + length m) (drop (length m) s);
            Some (\<lparr>index = i, matched = m, groups = gs\<rparr> # ms)
          })"

declare exec_all.simps [code]

text \<open>
  \<open>(.*?)\<close> followed by the literal \<open>close\<close>: the shortest run of characters other than line
  terminators after which \<open>close\<close> stands; the run is the capture.
\<close>

fun lazy_dots :: "jsstring \<Rightarrow> jsstring \<Rightarrow> jsstring option" where
  "lazy_dots close [] = (if close = [] then Some [] else None)"
| "lazy_dots close (c # cs) =
     (if prefix close (c # cs) then Some []
      else if line_terminator c then None
      else map_option ((#) c) (lazy_dots close cs))"

datatype style = bold | italic | inlineCode

text \<open>The delimiters of \<open>/\*\*(.*?)\*\*/g\<close>, \<open>/\*(.*?)\*/g\<close> and \<open>/`(.*?)`/g\<close>.\<close>

fun delimiter :: "style \<Rightarrow> jsstring" where
  "delimiter bold = js ''**''"
| "delimiter italic = js ''*''"
| "delimiter inlineCode = js ''`''"

definition pattern :: "style \<Rightarrow> regex" where
  "pattern st s =
     (let d = delimiter st in
      if prefix d s then
        (case lazy_dots d (drop (length d) s) of
           None \<Rightarrow> None
         | Some inner \<Rightarrow> Some (d @ inner @ d, [inner]))
      else None)"

text \<open>
  \<open>/\[([^\]]+)\]\(([^)]+)\)/g\<close>. A greedy class followed by the one character it excludes
  takes the whole run up to the first such character; giving characters back cannot help.
\<close>

definition markdownLinkRegex :: regex where
  "markdownLinkRegex s =
     (case s of
        [] \<Rightarrow> None
      | c # r1 \<Rightarrow>
          if [c] \<noteq> js ''['' then None
          else
            let t = takeWhile (\<lambda>c. [c] \<noteq> js '']'') r1;
                r2 = dropWhile (\<lambda>c. [c] \<noteq> js '']'') r1 in
            if t = [] \<or> \<not> prefix (js '']('') r2 then None
            else
              let r3 = drop 2 r2;
                  u = takeWhile (\<lambda>c. [c] \<noteq> js '')'') r3;
                  r4 = dropWhile (\<lambda>c. [c] \<noteq> js '')'') r3 in
              if u = [] \<or> \<not> prefix (js '')'') r4 then None
              else Some (js ''['' @ t @ js '']('' @ u @ js '')'', [t, u]))"

text \<open>
  The class \<open>[^\s<>"{}|\\^`[\]]\<close> of \<open>urlRegex\<close>; 34 is the double quote and 92 the
  backslash.
\<close>

definition url_char :: "code_unit \<Rightarrow> bool" where
  "url_char c = (\<not> white_space c \<and> c \<notin> set (js ''<>{}|^`[]'') \<and> c \<noteq> 34 \<and> c \<noteq> 92)"

text \<open>\<open>/https?:\/\//\<close>: the length of the scheme that starts the suffix.\<close>

definition scheme :: "jsstring \<Rightarrow> nat option" where
  "scheme s =
     (if prefix (js ''https://'') s then Some 8
      else if prefix (js ''http://'') s then Some 7
      else None)"

definition schemeRegex :: regex where
  "schemeRegex s = map_option (\<lambda>n. (take n s, [])) (scheme s)"

text \<open>\<open>/https?:\/\/[^\s<>"{}|\\^`[\]]+/g\<close>.\<close>

definition urlRegex :: regex where
  "urlRegex s =
     (case scheme s of
        None \<Rightarrow> None
      | Some n \<Rightarrow>
          let u = takeWhile url_char (drop n s) in
          if u = [] then None else Some (take n s @ u, []))"

text \<open>
  \<open>/^\d+\.\s/.test(line)\<close> and \<open>line.match(/^(\d+)\.\s(.*)$/)\<close>, which has no \<open>m\<close> flag:
  \<open>$\<close> is the end of the line, and \<open>.\<close> does not cross a line terminator.
\<close>

definition numberedTest :: "jsstring \<Rightarrow> bool" where
  "numberedTest line =
     (takeWhile is_digit line \<noteq> [] \<and>
      (case dropWhile is_digit line of
         d # w # r \<Rightarrow> [d] = js ''.'' \<and> white_space w
       | _ \<Rightarrow> False))"

definition numberedMatch :: "jsstring \<Rightarrow> (jsstring \<times> jsstring) option" where
  "numberedMatch line =
     (if takeWhile is_digit line = [] then None
      else
        (case dropWhile is_digit line of
           d # w # r \<Rightarrow>
             if [d] = js ''.'' \<and> white_space w \<and> \<not> list_ex line_terminator r
             then Some (takeWhile is_digit line, r) else None
         | _ \<Rightarrow> None))"

section \<open>The rendered tree\<close>

text \<open>
  What the component returns, with the style sheet left out: a \<open>Text\<close> in \<open>normalText\<close>
  alone or with one of the three styles, a \<open>Text\<close> holding what \<open>parseTextWithFormatting\<close>
  returned or a pressable link, and the blocks that \<open>parseMarkdown\<close> pushes. A \<open>Text\<close> that
  only wraps a list of children is the list: \<open>parseTextWithFormatting\<close> returns the list of
  its spans (the one span of the whole text when it found nothing), \<open>parseInlineMarkdown\<close>
  the list of its pieces (the one piece of \<open>parseTextWithFormatting\<close> when the text has no
  link).
\<close>

datatype span = NormalText jsstring | StyledText style jsstring

datatype inline = Formatted "span list" | Link jsstring jsstring

datatype element =
    H1 jsstring
  | H2 jsstring
  | H3 jsstring
  | CodeBlock jsstring
  | Blockquote jsstring
  | BulletItem "inline list"
  | NumberedItem jsstring "inline list"
  | Paragraph "inline list"
  | EmptyLine

datatype bubble = MessageText jsstring | MarkdownContainer "element list"

section \<open>parseTextWithFormatting\<close>

record format_match =
  fm_index :: nat
  fm_matched :: jsstring
  fm_inner :: jsstring
  fm_style :: style

definition tagged :: "style \<Rightarrow> regex_match list \<Rightarrow> format_match list" where
  "tagged st ms =
     map (\<lambda>m. \<lparr>fm_index = index m, fm_matched = matched m,
               fm_inner = (case groups m of [] \<Rightarrow> [] | g # _ \<Rightarrow> g), fm_style = st\<rparr>) ms"

text \<open>One round of \<open>allMatches.forEach\<close>; the state is \<open>elements\<close> and \<open>currentIndex\<close>.\<close>

definition processMatch :: "jsstring \<Rightarrow> format_match \<Rightarrow> span list \<times> nat \<Rightarrow> span list \<times> nat" where
  "processMatch text m st =
     (let (elements, currentIndex) = st;
          elements1 =
            (if fm_index m > currentIndex then
               (let beforeText = substring text currentIndex (fm_index m) in
                if beforeText \<noteq> [] then elements @ [NormalText beforeText] else elements)
             else elements)
      in (elements1 @ [StyledText (fm_style m) (fm_inner m)], fm_index m + length (fm_matched m)))"

definition parseTextWithFormatting :: "jsstring \<Rightarrow> span list option" where
  "parseTextWithFormatting text =
     do {
       bs \<leftarrow> exec_all (pattern bold) 0 text;
       is \<leftarrow> exec_all (pattern italic) 0 text;
       cs \<leftarrow> exec_all (pattern inlineCode) 0 text;
       let allMatches = sort_key fm_index (tagged bold bs @ tagged italic is @ tagged inlineCode cs);
       let (elements, currentIndex) = fold (processMatch text) allMatches ([], 0);
       let elements2 =
         (if currentIndex < length text then
            (let remainingText = drop currentIndex text in
             if remainingText \<noteq> [] then elements @ [NormalText remainingText] else elements)
          else elements);
       Some (if elements2 = [] then [NormalText text] else elements2)
     }"

section \<open>parseInlineMarkdown\<close>

datatype link_type = markdown | plain

record link =
  l_start :: nat
  l_end :: nat
  l_text :: jsstring
  l_url :: jsstring
  l_type :: link_type

definition markdownLink :: "regex_match \<Rightarrow> link" where
  "markdownLink m =
     \<lparr>l_start = index m, l_end = index m + length (matched m),
      l_text = (case groups m of g1 # _ \<Rightarrow> g1 | _ \<Rightarrow> []),
      l_url = (case groups m of _ # g2 # _ \<Rightarrow> g2 | _ \<Rightarrow> []),
      l_type = markdown\<rparr>"

text \<open>
  One round of the second \<open>while\<close> loop: a plain URL is pushed unless it starts inside
  a markdown link.
\<close>

definition plainLink :: "regex_match \<Rightarrow> link" where
  "plainLink m =
     \<lparr>l_start = index m, l_end = index m + length (matched m),
      l_text = matched m, l_url = matched m, l_type = plain\<rparr>"

definition pushPlainUrl :: "regex_match \<Rightarrow> link list \<Rightarrow> link list" where
  "pushPlainUrl m allLinks =
     (let isPartOfMarkdownLink =
            list_ex (\<lambda>l. l_type l = markdown \<and> index m \<ge> l_start l \<and> index m < l_end l) allLinks
      in if \<not> isPartOfMarkdownLink then allLinks @ [plainLink m] else allLinks)"

text \<open>The links of a text, as \<open>allLinks\<close> holds them after \<open>allLinks.sort\<close> (a stable sort).\<close>

definition allLinks :: "jsstring \<Rightarrow> link list option" where
  "allLinks text =
     do {
       mds \<leftarrow> exec_all markdownLinkRegex 0 text;
       urls \<leftarrow> exec_all urlRegex 0 text;
       Some (sort_key l_start (fold pushPlainUrl urls (map markdownLink mds)))
     }"

text \<open>\<open>allLinks.forEach\<close> and the remaining text; \<open>lastIndex\<close> is passed along.\<close>

fun linkElements :: "jsstring \<Rightarrow> link list \<Rightarrow> nat \<Rightarrow> inline list option" where
  "linkElements text [] lastIndex =
     (if lastIndex < length text then
        (let remainingText = drop lastIndex text in
         if remainingText \<noteq> [] then
           do { f \<leftarrow> parseTextWithFormatting remainingText; Some [Formatted f] }
         else Some [])
      else Some [])"
| "linkElements text (l # ls) lastIndex =
     do {
       before \<leftarrow>
         (if l_start l > lastIndex then
            (let beforeText = substring text lastIndex (l_start l) in
             if beforeText \<noteq> [] then
               do { f \<leftarrow> parseTextWithFormatting beforeText; Some [Formatted f] }
             else Some [])
          else Some []);
       rest \<leftarrow> linkElements text ls (l_end l);
       Some (before @ [Link (l_text l) (l_url l)] @ rest)
     }"

definition parseInlineMarkdown :: "jsstring \<Rightarrow> inline list option" where
  "parseInlineMarkdown text =
     (let hasMarkdownLinks = regex_test markdownLinkRegex text;
          hasPlainUrls = regex_test urlRegex text in
      if \<not> hasMarkdownLinks \<and> \<not> hasPlainUrls then
        do { f \<leftarrow> parseTextWithFormatting text; Some [Formatted f] }
      else
        do { ls \<leftarrow> allLinks text; linkElements text ls 0 })"

section \<open>parseMarkdown\<close>

definition fence :: jsstring where
  "fence = js ''```''"

text \<open>\<open>elements.push(e)\<close>, before the elements of the later rounds of the loop.\<close>

definition push :: "element \<Rightarrow> element list option \<Rightarrow> element list option" where
  "push e r = map_option ((#) e) r"

text \<open>
  The \<open>for\<close> loop over \<open>lines\<close>, as a function of the lines from \<open>i\<close> on. In the branch of
  a code block the inner \<open>while\<close> moves \<open>i\<close> to the next line that starts with the fence, or
  to the end, and the \<open>i++\<close> of the \<open>for\<close> steps over that line.
\<close>

function parseLines :: "jsstring list \<Rightarrow> element list option" where
  "parseLines [] = Some []"
| "parseLines (line # rest) =
     (if startsWith line (js ''# '') then push (H1 (drop 2 line)) (parseLines rest)
      else if startsWith line (js ''## '') then push (H2 (drop 3 line)) (parseLines rest)
      else if startsWith line (js ''### '') then push (H3 (drop 4 line)) (parseLines rest)
      else if startsWith line fence then
        (let codeLines = takeWhile (\<lambda>l. \<not> startsWith l fence) rest;
             rest2 = dropWhile (\<lambda>l. \<not> startsWith l fence) rest
         in push (CodeBlock (join_lines codeLines)) (parseLines (drop 1 rest2)))
      else if startsWith line (js ''> '') then push (Blockquote (drop 2 line)) (parseLines rest)
      else if startsWith line (js ''- '') \<or> startsWith line (js ''* '') then
        (case parseInlineMarkdown (drop 2 line) of
           None \<Rightarrow> None
         | Some t \<Rightarrow> push (BulletItem t) (parseLines rest))
      else if numberedTest line then
        (case numberedMatch line of
           None \<Rightarrow> parseLines rest
         | Some (n, r) \<Rightarrow>
             (case parseInlineMarkdown r of
                None \<Rightarrow> None
              | Some t \<Rightarrow> push (NumberedItem n t) (parseLines rest)))
      else if trim line \<noteq> [] then
        (case parseInlineMarkdown line of
           None \<Rightarrow> None
         | Some t \<Rightarrow> push (Paragraph t) (parseLines rest))
      else push EmptyLine (parseLines rest))"
  by pat_completeness auto
termination
  by (relation "measure length")
     (auto intro!: le_imp_less_Suc order_trans [OF diff_le_self length_dropWhile_le])

declare parseLines.simps(2) [simp del]

definition parseMarkdown :: "jsstring \<Rightarrow> element list option" where
  "parseMarkdown text = parseLines (split_lines text)"

section \<open>The component\<close>

text \<open>The characters of \<open>/[*_`#\[\]!-]/\<close>.\<close>

definition markdownChars :: "code_unit list" where
  "markdownChars = js ''*_`#[]!-''"

definition hasMarkdown :: "jsstring \<Rightarrow> bool" where
  "hasMarkdown message =
     (list_ex (\<lambda>c. c \<in> set markdownChars) message
      \<or> str_includes message fence
      \<or> str_includes message (js ''> '')
      \<or> numberedTest message
      \<or> regex_test schemeRegex message)"

definition MessageBubble :: "jsstring \<Rightarrow> bool \<Rightarrow> bubble option" where
  "MessageBubble message isUser =
     (if \<not> isUser \<and> hasMarkdown message
      then map_option MarkdownContainer (parseMarkdown message)
      else Some (MessageText message))"

section \<open>The detector, as the specification words it\<close>

text \<open>
  The specification's Heuristic Detector: one of the eight characters, or a fence, or a
  blockquote marker at the start of a line, or an ordered-list marker at the start of the
  message, or \<open>http://\<close> or \<open>https://\<close>.
\<close>

definition needsStructuredParsing :: "jsstring \<Rightarrow> bool" where
  "needsStructuredParsing message =
     (list_ex (\<lambda>c. c \<in> set (js ''*_`#[]!-'')) message
      \<or> str_includes message (js ''```'')
      \<or> list_ex (\<lambda>l. startsWith l (js ''> '')) (split_lines message)
      \<or> numberedTest message
      \<or> str_includes message (js ''http://'')
      \<or> str_includes message (js ''https://''))"

section \<open>What the elements hold\<close>

text \<open>
  What an element of the tree holds, relative to the lines of the message: a heading, a
  blockquote and a code block hold text of the lines as it is, a list item and a paragraph
  hold what \<open>parseInlineMarkdown\<close> returns for the line or for its rest after the marker.
\<close>

definition renderedFrom :: "jsstring list \<Rightarrow> element \<Rightarrow> bool" where
  "renderedFrom lines e =
     (case e of
        H1 x \<Rightarrow> js ''# '' @ x \<in> set lines
      | H2 x \<Rightarrow> js ''## '' @ x \<in> set lines
      | H3 x \<Rightarrow> js ''### '' @ x \<in> set lines
      | CodeBlock x \<Rightarrow> (\<exists>ls. set ls \<subseteq> set lines \<and> x = join_lines ls)
      | Blockquote x \<Rightarrow> js ''> '' @ x \<in> set lines
      | BulletItem t \<Rightarrow>
          (\<exists>x. (js ''- '' @ x \<in> set lines \<or> js ''* '' @ x \<in> set lines)
             \<and> parseInlineMarkdown x = Some t)
      | NumberedItem n t \<Rightarrow>
          (\<exists>w x. n @ js ''.'' @ w # x \<in> set lines \<and> n \<noteq> [] \<and> list_all is_digit n
             \<and> white_space w \<and> parseInlineMarkdown x = Some t)
      | Paragraph t \<Rightarrow> (\<exists>l. l \<in> set lines \<and> parseInlineMarkdown l = Some t)
      | EmptyLine \<Rightarrow> True)"

section \<open>What the regular expressions match\<close>

lemma lazy_dots_sound:
  "lazy_dots d r = Some inner \<Longrightarrow>
     prefix (inner @ d) r \<and> (\<forall>c\<in>set inner. \<not> line_terminator c)
     \<and> (\<forall>k<length inner. \<not> prefix d (drop k r))"
proof (induction r arbitrary: inner)
  case Nil
  then show ?case by (auto split: if_splits)
next
  case (Cons c cs)
  show ?case
  proof (cases "prefix d (c # cs)")
    case True
    with Cons.prems show ?thesis by simp
  next
    case False
    with Cons.prems obtain inner' where
      nt: "\<not> line_terminator c" and r: "lazy_dots d cs = Some inner'" and i: "inner = c # inner'"
      by (auto split: if_splits)
    from Cons.IH [OF r] have
      p: "prefix (inner' @ d) cs" and t: "\<forall>c\<in>set inner'. \<not> line_terminator c"
      and k: "\<forall>k<length inner'. \<not> prefix d (drop k cs)"
      by auto
    have "\<forall>k<length inner. \<not> prefix d (drop k (c # cs))"
    proof (intro allI impI)
      fix k assume "k < length inner"
      then show "\<not> prefix d (drop k (c # cs))"
        using False k i by (cases k) auto
    qed
    with p t nt i show ?thesis by simp
  qed
qed

lemma pattern_sound:
  assumes "pattern st s = Some (m, gs)"
  shows "\<exists>inner. gs = [inner] \<and> m = delimiter st @ inner @ delimiter st \<and> prefix m s
           \<and> (\<forall>c\<in>set inner. \<not> line_terminator c)
           \<and> (\<forall>k<length inner. \<not> prefix (delimiter st) (drop (length (delimiter st) + k) s))"
proof -
  let ?d = "delimiter st"
  from assms obtain inner where
    p: "prefix ?d s" and l: "lazy_dots ?d (drop (length ?d) s) = Some inner"
    and m: "m = ?d @ inner @ ?d" and g: "gs = [inner]"
    by (auto simp: pattern_def Let_def split: if_splits option.splits)
  from p obtain r where s: "s = ?d @ r" by (auto simp: prefix_def)
  from lazy_dots_sound [OF l] s have
    "prefix (inner @ ?d) r" "\<forall>c\<in>set inner. \<not> line_terminator c"
    "\<forall>k<length inner. \<not> prefix ?d (drop k r)"
    by auto
  with s m g show ?thesis by (auto simp: add.commute)
qed

lemma pattern_progress: "pattern st s = Some (m, gs) \<Longrightarrow> m \<noteq> [] \<and> prefix m s"
  by (drule pattern_sound) (cases st; auto simp: js_def)

lemma markdownLinkRegex_sound:
  assumes "markdownLinkRegex s = Some (m, gs)"
  shows "\<exists>t u. gs = [t, u] \<and> m = js ''['' @ t @ js '']('' @ u @ js '')'' \<and> prefix m s
           \<and> t \<noteq> [] \<and> u \<noteq> []
           \<and> (\<forall>c\<in>set t. [c] \<noteq> js '']'') \<and> (\<forall>c\<in>set u. [c] \<noteq> js '')'')"
proof -
  from assms obtain c r1 where s: "s = c # r1" and c: "[c] = js ''[''"
    by (auto simp: markdownLinkRegex_def split: list.splits if_splits)
  let ?t = "takeWhile (\<lambda>c. [c] \<noteq> js '']'') r1"
  let ?r2 = "dropWhile (\<lambda>c. [c] \<noteq> js '']'') r1"
  let ?r3 = "drop 2 ?r2"
  let ?u = "takeWhile (\<lambda>c. [c] \<noteq> js '')'') ?r3"
  let ?r4 = "dropWhile (\<lambda>c. [c] \<noteq> js '')'') ?r3"
  from assms s c have t: "?t \<noteq> []" and p2: "prefix (js '']('') ?r2"
    and u: "?u \<noteq> []" and p4: "prefix (js '')'') ?r4"
    and m: "m = js ''['' @ ?t @ js '']('' @ ?u @ js '')''" and g: "gs = [?t, ?u]"
    by (auto simp: markdownLinkRegex_def Let_def split: if_splits)
  from p2 have r2: "?r2 = js '']('' @ ?r3" by (auto simp: prefix_def js_def)
  from p4 obtain r5 where r4: "?r4 = js '')'' @ r5" by (auto simp: prefix_def)
  have "r1 = ?t @ ?r2" by simp
  also have "\<dots> = ?t @ js '']('' @ ?r3" using r2 by simp
  also have "?r3 = ?u @ ?r4" by simp
  finally have "s = js ''['' @ ?t @ js '']('' @ ?u @ js '')'' @ r5" using s c r4 by simp
  then have "prefix m s" unfolding m by (metis append.assoc prefixI)
  moreover have "\<forall>c\<in>set ?t. [c] \<noteq> js '']''" using set_takeWhileD by fastforce
  moreover have "\<forall>c\<in>set ?u. [c] \<noteq> js '')''" using set_takeWhileD by fastforce
  ultimately show ?thesis using t u m g by blast
qed

lemma markdownLinkRegex_progress: "markdownLinkRegex s = Some (m, gs) \<Longrightarrow> m \<noteq> [] \<and> prefix m s"
  by (drule markdownLinkRegex_sound) (auto simp: js_def)

lemma urlRegex_progress: "urlRegex s = Some (m, gs) \<Longrightarrow> m \<noteq> [] \<and> prefix m s"
proof -
  assume a: "urlRegex s = Some (m, gs)"
  then obtain n where n: "scheme s = Some n"
    and m: "m = take n s @ takeWhile url_char (drop n s)"
    and ne: "takeWhile url_char (drop n s) \<noteq> []"
    by (auto simp: urlRegex_def Let_def split: option.splits if_splits)
  have "s = take n s @ takeWhile url_char (drop n s) @ dropWhile url_char (drop n s)"
    by simp
  then have "prefix m s" unfolding m by (metis append.assoc prefixI)
  with m ne show ?thesis by simp
qed

lemma regex_test_iff: "regex_test rx s \<longleftrightarrow> (\<exists>xs ys. s = xs @ ys \<and> rx ys \<noteq> None)"
proof (induction s)
  case Nil
  show ?case by simp
next
  case (Cons c cs)
  have "(\<exists>xs ys. c # cs = xs @ ys \<and> rx ys \<noteq> None)
          \<longleftrightarrow> rx (c # cs) \<noteq> None \<or> (\<exists>xs ys. cs = xs @ ys \<and> rx ys \<noteq> None)"
  proof
    assume "\<exists>xs ys. c # cs = xs @ ys \<and> rx ys \<noteq> None"
    then obtain xs ys where e: "c # cs = xs @ ys" "rx ys \<noteq> None" by blast
    show "rx (c # cs) \<noteq> None \<or> (\<exists>xs ys. cs = xs @ ys \<and> rx ys \<noteq> None)"
    proof (cases xs)
      case Nil
      with e show ?thesis by auto
    next
      case (Cons x xs')
      with e show ?thesis by auto
    qed
  next
    assume "rx (c # cs) \<noteq> None \<or> (\<exists>xs ys. cs = xs @ ys \<and> rx ys \<noteq> None)"
    then show "\<exists>xs ys. c # cs = xs @ ys \<and> rx ys \<noteq> None"
    proof
      assume "rx (c # cs) \<noteq> None"
      then have "c # cs = [] @ (c # cs) \<and> rx (c # cs) \<noteq> None" by simp
      then show ?thesis by blast
    next
      assume "\<exists>xs ys. cs = xs @ ys \<and> rx ys \<noteq> None"
      then obtain xs ys where "cs = xs @ ys" "rx ys \<noteq> None" by blast
      then have "c # cs = (c # xs) @ ys \<and> rx ys \<noteq> None" by simp
      then show ?thesis by blast
    qed
  qed
  with Cons.IH show ?case by simp
qed

lemma schemeRegex_test_iff:
  "regex_test schemeRegex s \<longleftrightarrow>
     (\<exists>xs ys. s = xs @ js ''http://'' @ ys) \<or> (\<exists>xs ys. s = xs @ js ''https://'' @ ys)"
proof -
  have "schemeRegex ys \<noteq> None \<longleftrightarrow> prefix (js ''https://'') ys \<or> prefix (js ''http://'') ys" for ys
    by (simp add: schemeRegex_def scheme_def)
  then have "regex_test schemeRegex s \<longleftrightarrow>
      (\<exists>xs ys. s = xs @ ys \<and> (prefix (js ''https://'') ys \<or> prefix (js ''http://'') ys))"
    by (simp add: regex_test_iff)
  also have "\<dots> \<longleftrightarrow> (\<exists>xs ys. s = xs @ js ''http://'' @ ys) \<or> (\<exists>xs ys. s = xs @ js ''https://'' @ ys)"
    unfolding prefix_def by blast
  finally show ?thesis .
qed

lemma str_includes_iff: "str_includes s p \<longleftrightarrow> (\<exists>xs ys. s = xs @ p @ ys)"
proof (induction s)
  case Nil
  show ?case by auto
next
  case (Cons c cs)
  have "(\<exists>xs ys. c # cs = xs @ p @ ys) \<longleftrightarrow> prefix p (c # cs) \<or> (\<exists>xs ys. cs = xs @ p @ ys)"
  proof
    assume "\<exists>xs ys. c # cs = xs @ p @ ys"
    then obtain xs ys where e: "c # cs = xs @ p @ ys" by blast
    show "prefix p (c # cs) \<or> (\<exists>xs ys. cs = xs @ p @ ys)"
    proof (cases xs)
      case Nil
      with e show ?thesis by (auto simp: prefix_def)
    next
      case (Cons x xs')
      with e show ?thesis by auto
    qed
  next
    assume "prefix p (c # cs) \<or> (\<exists>xs ys. cs = xs @ p @ ys)"
    then show "\<exists>xs ys. c # cs = xs @ p @ ys"
    proof
      assume "prefix p (c # cs)"
      then obtain ys where "c # cs = p @ ys" by (auto simp: prefix_def)
      then have "c # cs = [] @ p @ ys" by simp
      then show ?thesis by blast
    next
      assume "\<exists>xs ys. cs = xs @ p @ ys"
      then obtain xs ys where "cs = xs @ p @ ys" by blast
      then have "c # cs = (c # xs) @ p @ ys" by simp
      then show ?thesis by blast
    qed
  qed
  with Cons.IH show ?case by simp
qed

lemma numberedTest_iff:
  "numberedTest m \<longleftrightarrow>
     (\<exists>ds w r. m = ds @ js ''.'' @ w # r \<and> ds \<noteq> [] \<and> (\<forall>d\<in>set ds. is_digit d) \<and> white_space w)"
proof
  assume t: "numberedTest m"
  let ?ds = "takeWhile is_digit m"
  from t obtain d w r where dw: "dropWhile is_digit m = d # w # r"
    and d: "[d] = js ''.''" and w: "white_space w" and ne: "?ds \<noteq> []"
    by (auto simp: numberedTest_def split: list.splits)
  have "m = ?ds @ dropWhile is_digit m" by simp
  also have "dropWhile is_digit m = js ''.'' @ w # r" unfolding dw using d by (simp add: js_def)
  finally have "m = ?ds @ js ''.'' @ w # r" .
  moreover have "\<forall>d\<in>set ?ds. is_digit d" by (auto dest: set_takeWhileD)
  ultimately show "\<exists>ds w r. m = ds @ js ''.'' @ w # r \<and> ds \<noteq> [] \<and> (\<forall>d\<in>set ds. is_digit d) \<and> white_space w"
    using ne w by blast
next
  assume "\<exists>ds w r. m = ds @ js ''.'' @ w # r \<and> ds \<noteq> [] \<and> (\<forall>d\<in>set ds. is_digit d) \<and> white_space w"
  then obtain ds w r where m: "m = ds @ js ''.'' @ w # r" and ne: "ds \<noteq> []"
    and dg: "\<forall>d\<in>set ds. is_digit d" and w: "white_space w"
    by blast
  have nd: "\<not> is_digit 46" by (simp add: is_digit_def)
  from dg nd have "takeWhile is_digit m = ds" "dropWhile is_digit m = 46 # w # r"
    unfolding m by (simp_all add: js_def takeWhile_append2 dropWhile_append2)
  with ne w show "numberedTest m" by (simp add: numberedTest_def js_def)
qed

lemma numberedMatch_sound:
  assumes "numberedMatch line = Some (n, r)"
  shows "\<exists>w. line = n @ js ''.'' @ w # r \<and> n \<noteq> [] \<and> list_all is_digit n \<and> white_space w"
proof -
  from assms obtain d w where dw: "dropWhile is_digit line = d # w # r"
    and d: "[d] = js ''.''" and w: "white_space w"
    and n: "n = takeWhile is_digit line" "n \<noteq> []"
    by (auto simp: numberedMatch_def split: if_splits list.splits)
  have "line = takeWhile is_digit line @ dropWhile is_digit line" by simp
  also have "dropWhile is_digit line = js ''.'' @ w # r" unfolding dw using d by (simp add: js_def)
  finally have "line = n @ js ''.'' @ w # r" using n by simp
  moreover have "list_all is_digit n" unfolding n list_all_iff by (auto dest: set_takeWhileD)
  ultimately show ?thesis using n w by blast
qed

section \<open>The exec loops\<close>

lemma exec_all_total:
  assumes progress: "\<And>s m gs. rx s = Some (m, gs) \<Longrightarrow> m \<noteq> [] \<and> prefix m s"
  shows "\<exists>ms. exec_all rx i s = Some ms"
proof (induction "length s" arbitrary: s i rule: less_induct)
  case less
  show ?case
  proof (cases "rx s")
    case None
    show ?thesis
    proof (cases s)
      case Nil
      with None show ?thesis by (subst exec_all.simps) simp
    next
      case (Cons c cs)
      with less [of cs "Suc i"] obtain ms where "exec_all rx (Suc i) cs = Some ms" by auto
      with None Cons show ?thesis by (subst exec_all.simps) simp
    qed
  next
    case (Some a)
    then obtain m gs where a: "rx s = Some (m, gs)" by (cases a) auto
    from progress [OF a] have "m \<noteq> []" "prefix m s" by auto
    then have "length (drop (length m) s) < length s"
      by (cases s) (auto simp: prefix_def)
    from less [OF this, of "i + length m"] obtain ms
      where "exec_all rx (i + length m) (drop (length m) s) = Some ms" by auto
    with a show ?thesis by (subst exec_all.simps) simp
  qed
qed

lemma exec_all_matches:
  assumes progress: "\<And>s m gs. rx s = Some (m, gs) \<Longrightarrow> m \<noteq> [] \<and> prefix m s"
  shows "exec_all rx i s = Some ms \<Longrightarrow> r \<in> set ms \<Longrightarrow>
           \<exists>k\<le>length s. index r = i + k \<and> rx (drop k s) = Some (matched r, groups r)"
proof (induction "length s" arbitrary: s i ms rule: less_induct)
  case less
  show ?case
  proof (cases "rx s")
    case None
    show ?thesis
    proof (cases s)
      case Nil
      with None less.prems show ?thesis by (subst (asm) exec_all.simps) simp
    next
      case (Cons c cs)
      with None less.prems(1) have "exec_all rx (Suc i) cs = Some ms"
        by (subst (asm) exec_all.simps) simp
      from less.hyps [OF _ this less.prems(2)] Cons obtain k where
        "k \<le> length cs" "index r = Suc i + k" "rx (drop k cs) = Some (matched r, groups r)"
        by auto
      with Cons show ?thesis by (intro exI [of _ "Suc k"]) simp
    qed
  next
    case (Some a)
    then obtain m gs where a: "rx s = Some (m, gs)" by (cases a) auto
    from progress [OF a] have m: "m \<noteq> []" "prefix m s" by auto
    then have sh: "length (drop (length m) s) < length s"
      by (cases s) (auto simp: prefix_def)
    from m have le: "length m \<le> length s" by (auto simp: prefix_def)
    from a less.prems(1) obtain ms' where
      e: "exec_all rx (i + length m) (drop (length m) s) = Some ms'"
      and ms: "ms = \<lparr>index = i, matched = m, groups = gs\<rparr> # ms'"
      by (subst (asm) exec_all.simps) (auto split: Option.bind_splits)
    show ?thesis
    proof (cases "r \<in> set ms'")
      case True
      from less.hyps [OF sh e True] obtain k where
        k: "k \<le> length (drop (length m) s)" "index r = i + length m + k"
           "rx (drop k (drop (length m) s)) = Some (matched r, groups r)"
        by auto
      with le show ?thesis by (intro exI [of _ "length m + k"]) (auto simp: add.commute)
    next
      case False
      with ms less.prems(2) have "r = \<lparr>index = i, matched = m, groups = gs\<rparr>" by simp
      with a show ?thesis by (intro exI [of _ 0]) simp
    qed
  qed
qed

lemma exec_all_indices:
  assumes progress: "\<And>s m gs. rx s = Some (m, gs) \<Longrightarrow> m \<noteq> [] \<and> prefix m s"
  shows "exec_all rx i s = Some ms \<Longrightarrow>
           sorted_wrt (<) (map index ms) \<and> (\<forall>m\<in>set ms. i \<le> index m)"
proof (induction "length s" arbitrary: s i ms rule: less_induct)
  case less
  show ?case
  proof (cases "rx s")
    case None
    show ?thesis
    proof (cases s)
      case Nil
      with None less.prems show ?thesis by (subst (asm) exec_all.simps) simp
    next
      case (Cons c cs)
      with None less.prems have "exec_all rx (Suc i) cs = Some ms"
        by (subst (asm) exec_all.simps) simp
      from less.hyps [OF _ this] Cons show ?thesis by fastforce
    qed
  next
    case (Some a)
    then obtain m gs where a: "rx s = Some (m, gs)" by (cases a) auto
    from progress [OF a] have m: "m \<noteq> []" "prefix m s" by auto
    then have sh: "length (drop (length m) s) < length s"
      by (cases s) (auto simp: prefix_def)
    from a less.prems obtain ms' where
      e: "exec_all rx (i + length m) (drop (length m) s) = Some ms'"
      and ms: "ms = \<lparr>index = i, matched = m, groups = gs\<rparr> # ms'"
      by (subst (asm) exec_all.simps) (auto split: Option.bind_splits)
    from less.hyps [OF sh e] have
      "sorted_wrt (<) (map index ms')" "\<forall>r\<in>set ms'. i + length m \<le> index r"
      by auto
    with m(1) show ?thesis unfolding ms by (cases m) fastforce+
  qed
qed

section \<open>The parser returns\<close>

lemma parseTextWithFormatting_total: "\<exists>f. parseTextWithFormatting text = Some f"
proof -
  obtain bs where b: "exec_all (pattern bold) 0 text = Some bs"
    using exec_all_total [of "pattern bold"] pattern_progress by blast
  obtain its where i: "exec_all (pattern italic) 0 text = Some its"
    using exec_all_total [of "pattern italic"] pattern_progress by blast
  obtain cs where c: "exec_all (pattern inlineCode) 0 text = Some cs"
    using exec_all_total [of "pattern inlineCode"] pattern_progress by blast
  show ?thesis
    by (simp add: parseTextWithFormatting_def b i c Let_def split_def)
qed

lemma allLinks_total: "\<exists>ls. allLinks text = Some ls"
proof -
  obtain mds where m: "exec_all markdownLinkRegex 0 text = Some mds"
    using exec_all_total [of markdownLinkRegex] markdownLinkRegex_progress by blast
  obtain urls where u: "exec_all urlRegex 0 text = Some urls"
    using exec_all_total [of urlRegex] urlRegex_progress by blast
  show ?thesis by (simp add: allLinks_def m u)
qed

lemma linkElements_total: "\<exists>es. linkElements text ls lastIndex = Some es"
proof (induction ls arbitrary: lastIndex)
  case Nil
  obtain f where "parseTextWithFormatting (drop lastIndex text) = Some f"
    using parseTextWithFormatting_total by blast
  then show ?case by (simp add: Let_def)
next
  case (Cons l ls)
  obtain f where f: "parseTextWithFormatting (substring text lastIndex (l_start l)) = Some f"
    using parseTextWithFormatting_total by blast
  obtain rest where r: "linkElements text ls (l_end l) = Some rest"
    using Cons.IH by blast
  show ?case by (simp add: Let_def f r)
qed

lemma parseInlineMarkdown_total: "\<exists>t. parseInlineMarkdown text = Some t"
proof -
  obtain f where f: "parseTextWithFormatting text = Some f"
    using parseTextWithFormatting_total by blast
  obtain ls where l: "allLinks text = Some ls"
    using allLinks_total by blast
  obtain es where e: "linkElements text ls 0 = Some es"
    using linkElements_total by blast
  show ?thesis by (simp add: parseInlineMarkdown_def Let_def f l e)
qed

lemma parseLines_total: "\<exists>es. parseLines ls = Some es"
proof (induction "length ls" arbitrary: ls rule: less_induct)
  case less
  show ?case
  proof (cases ls)
    case Nil
    then show ?thesis by simp
  next
    case (Cons line rest)
    let ?rest2 = "drop 1 (dropWhile (\<lambda>l. \<not> startsWith l fence) rest)"
    have "length ?rest2 < length ls"
      using Cons by (auto intro!: le_imp_less_Suc order_trans [OF diff_le_self length_dropWhile_le])
    from less [OF this] obtain es2 where es2: "parseLines ?rest2 = Some es2" by blast
    from less [of rest] Cons obtain es1 where es1: "parseLines rest = Some es1" by auto
    obtain t2 where t2: "parseInlineMarkdown (drop 2 line) = Some t2"
      using parseInlineMarkdown_total by blast
    obtain t where t: "parseInlineMarkdown line = Some t"
      using parseInlineMarkdown_total by blast
    have n: "\<exists>es. (case numberedMatch line of
                None \<Rightarrow> parseLines rest
              | Some (n, r) \<Rightarrow>
                 (case parseInlineMarkdown r of
                    None \<Rightarrow> None
                  | Some t \<Rightarrow> push (NumberedItem n t) (parseLines rest))) = Some es"
    proof (cases "numberedMatch line")
      case None
      then show ?thesis by (simp add: es1)
    next
      case (Some a)
      obtain n r where a: "a = (n, r)" by (cases a)
      obtain t where "parseInlineMarkdown r = Some t"
        using parseInlineMarkdown_total by blast
      then show ?thesis by (simp add: Some a es1 push_def)
    qed
    show ?thesis
      unfolding Cons parseLines.simps Let_def
      using n es2 by (simp add: es1 t t2 push_def)
  qed
qed

lemma parseMarkdown_total: "\<exists>es. parseMarkdown text = Some es"
  by (simp add: parseMarkdown_def parseLines_total)

section \<open>The links of a text\<close>

lemma map_insort_key: "map f (insort_key f x ys) = insort (f x) (map f ys)"
  by (induction ys) auto

lemma map_sort_key: "map f (sort_key f xs) = sort (map f xs)"
  by (induction xs) (auto simp: map_insort_key)

lemma fold_pushPlainUrl:
  "fold pushPlainUrl urls acc =
     acc @ map plainLink
       (filter (\<lambda>u. \<not> list_ex (\<lambda>l. l_type l = markdown \<and> l_start l \<le> index u \<and> index u < l_end l) acc)
          urls)"
proof (induction urls arbitrary: acc)
  case Nil
  show ?case by simp
next
  case (Cons u us)
  let ?inside = "\<lambda>i l. l_type l = markdown \<and> l_start l \<le> i \<and> i < l_end l"
  have step: "fold pushPlainUrl (u # us) acc = fold pushPlainUrl us (pushPlainUrl u acc)"
    by simp
  show ?case
  proof (cases "list_ex (?inside (index u)) acc")
    case True
    then have "pushPlainUrl u acc = acc" by (simp add: pushPlainUrl_def)
    with True show ?thesis unfolding step by (simp add: Cons.IH)
  next
    case False
    then have p: "pushPlainUrl u acc = acc @ [plainLink u]" by (simp add: pushPlainUrl_def)
    have "list_ex (?inside i) (acc @ [plainLink u]) = list_ex (?inside i) acc" for i
      by (simp add: plainLink_def)
    with False show ?thesis unfolding step p by (simp add: Cons.IH)
  qed
qed

lemma covered_by_markdownLink:
  "list_ex (\<lambda>l. l_type l = markdown \<and> l_start l \<le> i \<and> i < l_end l) (map markdownLink mds)
     = (\<exists>m\<in>set mds. index m \<le> i \<and> i < index m + length (matched m))"
  by (induction mds) (auto simp: markdownLink_def)

section \<open>The branches of parseMarkdown\<close>

lemma fence_not_heading:
  assumes "startsWith line fence"
  shows "\<not> startsWith line (js ''# '')" "\<not> startsWith line (js ''## '')"
    "\<not> startsWith line (js ''### '')"
  using assms by (auto simp: startsWith_def fence_def js_def prefix_def)

lemma quote_not_earlier:
  assumes "startsWith line (js ''> '')"
  shows "\<not> startsWith line (js ''# '')" "\<not> startsWith line (js ''## '')"
    "\<not> startsWith line (js ''### '')" "\<not> startsWith line fence"
  using assms by (auto simp: startsWith_def fence_def js_def prefix_def)

lemma parseLines_fence:
  assumes "startsWith line fence"
  shows "parseLines (line # rest) =
           push (CodeBlock (join_lines (takeWhile (\<lambda>l. \<not> startsWith l fence) rest)))
             (parseLines (drop 1 (dropWhile (\<lambda>l. \<not> startsWith l fence) rest)))"
  using assms fence_not_heading [OF assms] by (simp add: parseLines.simps Let_def)

lemma parseLines_quote:
  assumes "startsWith line (js ''> '')"
  shows "parseLines (line # rest) = push (Blockquote (drop 2 line)) (parseLines rest)"
  using assms quote_not_earlier [OF assms] by (simp add: parseLines.simps)

lemma startsWith_drop:
  assumes "startsWith line p" and "length p = n"
  shows "p @ drop n line = line"
  using assms by (auto simp: startsWith_def prefix_def)

lemma renderedFrom_mono: "renderedFrom ls e \<Longrightarrow> set ls \<subseteq> set ls' \<Longrightarrow> renderedFrom ls' e"
  unfolding renderedFrom_def by (cases e) (simp_all, blast+)

lemma parseLines_step:
  assumes "parseLines (line # rest) = Some es"
  shows "\<exists>rest' es'. parseLines rest' = Some es' \<and> set rest' \<subseteq> set rest
           \<and> length rest' \<le> length rest
           \<and> (es = es' \<or> (\<exists>e. es = e # es' \<and> renderedFrom (line # rest) e))"
proof -
  let ?P = "\<lambda>l. \<not> startsWith l fence"
  let ?rest2 = "drop 1 (dropWhile ?P rest)"
  have sub2: "set ?rest2 \<subseteq> set rest"
    by (meson set_drop_subset set_dropWhileD subset_iff)
  have len2: "length ?rest2 \<le> length rest"
    by (auto intro: order_trans [OF diff_le_self length_dropWhile_le])
  have via_rest: ?thesis if "es = e # es'" "parseLines rest = Some es'"
    "renderedFrom (line # rest) e" for e es'
    using that by (intro exI [of _ rest] exI [of _ es']) auto
  consider
      (h1) "startsWith line (js ''# '')"
    | (h2) "\<not> startsWith line (js ''# '')" "startsWith line (js ''## '')"
    | (h3) "\<not> startsWith line (js ''# '')" "\<not> startsWith line (js ''## '')"
           "startsWith line (js ''### '')"
    | (code) "startsWith line fence"
    | (quote) "startsWith line (js ''> '')"
    | (other) "\<not> startsWith line (js ''# '')" "\<not> startsWith line (js ''## '')"
           "\<not> startsWith line (js ''### '')" "\<not> startsWith line fence"
           "\<not> startsWith line (js ''> '')"
    by blast
  then show ?thesis
  proof cases
    case h1
    with assms obtain es' where "es = H1 (drop 2 line) # es'" "parseLines rest = Some es'"
      by (auto simp: parseLines.simps push_def)
    moreover have "renderedFrom (line # rest) (H1 (drop 2 line))"
      using startsWith_drop [OF h1, of 2] by (simp add: renderedFrom_def js_def)
    ultimately show ?thesis by (rule via_rest)
  next
    case h2
    with assms obtain es' where "es = H2 (drop 3 line) # es'" "parseLines rest = Some es'"
      by (auto simp: parseLines.simps push_def)
    moreover have "renderedFrom (line # rest) (H2 (drop 3 line))"
      using startsWith_drop [OF h2(2), of 3] by (simp add: renderedFrom_def js_def)
    ultimately show ?thesis by (rule via_rest)
  next
    case h3
    with assms obtain es' where "es = H3 (drop 4 line) # es'" "parseLines rest = Some es'"
      by (auto simp: parseLines.simps push_def)
    moreover have "renderedFrom (line # rest) (H3 (drop 4 line))"
      using startsWith_drop [OF h3(3), of 4] by (simp add: renderedFrom_def js_def)
    ultimately show ?thesis by (rule via_rest)
  next
    case code
    with assms obtain es' where
      es: "es = CodeBlock (join_lines (takeWhile ?P rest)) # es'" "parseLines ?rest2 = Some es'"
      unfolding parseLines_fence [OF code] by (auto simp: push_def)
    have "set (takeWhile ?P rest) \<subseteq> set (line # rest)"
      by (auto dest: set_takeWhileD)
    then have "renderedFrom (line # rest) (CodeBlock (join_lines (takeWhile ?P rest)))"
      unfolding renderedFrom_def by auto
    with es sub2 len2 show ?thesis
      by (intro exI [of _ ?rest2] exI [of _ es']) auto
  next
    case quote
    with assms obtain es' where "es = Blockquote (drop 2 line) # es'" "parseLines rest = Some es'"
      unfolding parseLines_quote [OF quote] by (auto simp: push_def)
    moreover have "renderedFrom (line # rest) (Blockquote (drop 2 line))"
      using startsWith_drop [OF quote, of 2] by (simp add: renderedFrom_def js_def)
    ultimately show ?thesis by (rule via_rest)
  next
    case other
    show ?thesis
    proof (cases "startsWith line (js ''- '') \<or> startsWith line (js ''* '')")
      case True
      with assms other obtain t es' where t: "parseInlineMarkdown (drop 2 line) = Some t"
        and es: "es = BulletItem t # es'" "parseLines rest = Some es'"
        by (auto simp: parseLines.simps push_def split: option.splits)
      from True have "js ''- '' @ drop 2 line = line \<or> js ''* '' @ drop 2 line = line"
        using startsWith_drop [of line "js ''- ''" 2] startsWith_drop [of line "js ''* ''" 2]
        by (auto simp: js_def)
      with t have "renderedFrom (line # rest) (BulletItem t)"
        unfolding renderedFrom_def by auto
      with es show ?thesis by (intro via_rest)
    next
      case False
      note bullet = this
      show ?thesis
      proof (cases "numberedTest line")
        case True
        show ?thesis
        proof (cases "numberedMatch line")
          case None
          with assms other bullet True have "parseLines rest = Some es"
            by (simp add: parseLines.simps)
          then show ?thesis by (intro exI [of _ rest] exI [of _ es]) auto
        next
          case (Some a)
          obtain n r where a: "a = (n, r)" by (cases a)
          with assms other bullet True Some obtain t es' where
            t: "parseInlineMarkdown r = Some t"
            and es: "es = NumberedItem n t # es'" "parseLines rest = Some es'"
            by (auto simp: parseLines.simps push_def split: option.splits)
          from numberedMatch_sound [of line n r] Some a t
          have "renderedFrom (line # rest) (NumberedItem n t)"
            unfolding renderedFrom_def by auto
          with es show ?thesis by (intro via_rest)
        qed
      next
        case False
        note numbered = this
        show ?thesis
        proof (cases "trim line \<noteq> []")
          case True
          with assms other bullet numbered obtain t es' where
            t: "parseInlineMarkdown line = Some t"
            and es: "es = Paragraph t # es'" "parseLines rest = Some es'"
            by (auto simp: parseLines.simps push_def split: option.splits)
          from t have "renderedFrom (line # rest) (Paragraph t)"
            unfolding renderedFrom_def by auto
          with es show ?thesis by (intro via_rest)
        next
          case False
          with assms other bullet numbered obtain es' where
            es: "es = EmptyLine # es'" "parseLines rest = Some es'"
            by (auto simp: parseLines.simps push_def)
          have "renderedFrom (line # rest) EmptyLine" by (simp add: renderedFrom_def)
          with es show ?thesis by (intro via_rest)
        qed
      qed
    qed
  qed
qed

lemma parseLines_renderedFrom:
  "parseLines ls = Some es \<Longrightarrow> e \<in> set es \<Longrightarrow> renderedFrom ls e"
proof (induction "length ls" arbitrary: ls es rule: less_induct)
  case less
  show ?case
  proof (cases ls)
    case Nil
    with less.prems show ?thesis by simp
  next
    case (Cons line rest)
    from parseLines_step [of line rest es] less.prems(1) Cons obtain rest' es' where
      r: "parseLines rest' = Some es'" "set rest' \<subseteq> set rest" "length rest' \<le> length rest"
      and es: "es = es' \<or> (\<exists>e. es = e # es' \<and> renderedFrom (line # rest) e)"
      by blast
    have tail: "renderedFrom ls e" if "e \<in> set es'"
    proof -
      from r(3) Cons have "length rest' < length ls" by simp
      from less.hyps [OF this r(1) that] have "renderedFrom rest' e" .
      then show ?thesis by (rule renderedFrom_mono) (use r(2) Cons in auto)
    qed
    from es less.prems(2) tail Cons show ?thesis by auto
  qed
qed

section \<open>Evaluating the parser\<close>

lemmas regex_eval =
  js_def exec_all.simps pattern_def markdownLinkRegex_def urlRegex_def scheme_def url_char_def
  line_terminator_def white_space_def is_digit_def Let_def

lemmas inline_eval =
  parseTextWithFormatting_def tagged_def processMatch_def substring_def
  parseInlineMarkdown_def allLinks_def markdownLink_def plainLink_def pushPlainUrl_def

lemmas block_eval =
  parseMarkdown_def parseLines.simps startsWith_def fence_def numberedTest_def numberedMatch_def
  push_def trim_def

section \<open>The claims\<close>

text \<open>
  C1, as stated, fails in its second half: not every block that bears text has it passed
  through \<open>parseInlineMarkdown\<close>. In the message below the paragraph is resolved into an
  italic span, while the heading and the blockquote keep their asterisks, although
  \<open>parseInlineMarkdown\<close> would resolve the text of the blockquote in the same way.
\<close>

theorem blocks_not_all_resolved:
  "MessageBubble (js ''# *T*\<newline>> *q*\<newline>*p*'') False =
     Some (MarkdownContainer
       [H1 (js ''*T*''), Blockquote (js ''*q*''),
        Paragraph [Formatted [StyledText italic (js ''p'')]]])
   \<and> parseInlineMarkdown (js ''*q*'') = Some [Formatted [StyledText italic (js ''q'')]]"
  by (simp add: MessageBubble_def hasMarkdown_def markdownChars_def regex_eval inline_eval block_eval)

text \<open>
  C1, amended. When \<open>isUser\<close> holds or \<open>hasMarkdown\<close> fails, the component shows the
  message itself, unchanged, as one text. Otherwise it shows what \<open>parseMarkdown\<close> returns
  for the message, and in it every paragraph and every list item holds what
  \<open>parseInlineMarkdown\<close> returns for its line, or for the rest of its line after the marker,
  while every heading, blockquote and code block holds text of the lines as it is.
\<close>

theorem MessageBubble_render:
  "(isUser \<or> \<not> hasMarkdown message \<longrightarrow>
      MessageBubble message isUser = Some (MessageText message))
   \<and> (\<not> isUser \<and> hasMarkdown message \<longrightarrow>
      (\<exists>es. MessageBubble message isUser = Some (MarkdownContainer es)
         \<and> parseMarkdown message = Some es
         \<and> (\<forall>e\<in>set es. renderedFrom (split_lines message) e)))"
proof (intro conjI impI)
  assume "isUser \<or> \<not> hasMarkdown message"
  then show "MessageBubble message isUser = Some (MessageText message)"
    by (auto simp: MessageBubble_def)
next
  assume a: "\<not> isUser \<and> hasMarkdown message"
  obtain es where es: "parseMarkdown message = Some es"
    using parseMarkdown_total by blast
  with a have "MessageBubble message isUser = Some (MarkdownContainer es)"
    by (simp add: MessageBubble_def)
  moreover have "\<forall>e\<in>set es. renderedFrom (split_lines message) e"
    using es parseLines_renderedFrom unfolding parseMarkdown_def by blast
  ultimately show "\<exists>es. MessageBubble message isUser = Some (MarkdownContainer es)
         \<and> parseMarkdown message = Some es
         \<and> (\<forall>e\<in>set es. renderedFrom (split_lines message) e)"
    using es by blast
qed

theorem MessageBubble_render_witness:
  "MessageBubble (js ''# not a heading'') True = Some (MessageText (js ''# not a heading''))
   \<and> MessageBubble (js ''hello world'') False = Some (MessageText (js ''hello world''))
   \<and> hasMarkdown (js ''## Title\<newline>- *a*'')
   \<and> MessageBubble (js ''## Title\<newline>- *a*'') False =
       Some (MarkdownContainer
         [H2 (js ''Title''), BulletItem [Formatted [StyledText italic (js ''a'')]]])
   \<and> renderedFrom [js ''## Title'', js ''- *a*''] (H2 (js ''Title''))
   \<and> renderedFrom [js ''## Title'', js ''- *a*'']
         (BulletItem [Formatted [StyledText italic (js ''a'')]])"
proof -
  have h: "hasMarkdown (js ''## Title\<newline>- *a*'')"
    by (simp add: hasMarkdown_def markdownChars_def js_def)
  have n: "\<not> hasMarkdown (js ''hello world'')"
    by (simp add: hasMarkdown_def markdownChars_def js_def fence_def numberedTest_def
        is_digit_def schemeRegex_def scheme_def)
  have p: "parseMarkdown (js ''## Title\<newline>- *a*'') =
             Some [H2 (js ''Title''), BulletItem [Formatted [StyledText italic (js ''a'')]]]"
    by (simp add: regex_eval inline_eval block_eval)
  have s: "split_lines (js ''## Title\<newline>- *a*'') = [js ''## Title'', js ''- *a*'']"
    by (simp add: js_def)
  from MessageBubble_render [of True "js ''# not a heading''"]
  have 1: "MessageBubble (js ''# not a heading'') True = Some (MessageText (js ''# not a heading''))"
    by simp
  from MessageBubble_render [of False "js ''hello world''"] n
  have 2: "MessageBubble (js ''hello world'') False = Some (MessageText (js ''hello world''))"
    by simp
  from MessageBubble_render [of False "js ''## Title\<newline>- *a*''"] h
  have 3: "MessageBubble (js ''## Title\<newline>- *a*'') False =
       Some (MarkdownContainer
         [H2 (js ''Title''), BulletItem [Formatted [StyledText italic (js ''a'')]]])
     \<and> (\<forall>e\<in>set [H2 (js ''Title''), BulletItem [Formatted [StyledText italic (js ''a'')]]].
          renderedFrom [js ''## Title'', js ''- *a*''] e)"
    unfolding p s by auto
  from 1 2 3 h show ?thesis by simp
qed

text \<open>
  C2. The spans of \<open>parseTextWithFormatting\<close> do not tile the text. On \<open>**bold**\<close> the bold
  expression matches the whole text and the italic expression matches the two pairs of
  asterisks, each with an empty capture; the three matches overlap, and the walk emits the
  word once as bold and once more as normal text; the same happens at the start of
  \<open>**bold** and *italic*\<close>. On \<open>*a**b**\<close> no two matches start at the same offset and
  the letter \<open>b\<close> is still emitted twice.
\<close>

theorem parseTextWithFormatting_repeats_text:
  "parseTextWithFormatting (js ''**bold**'') =
     Some [StyledText bold (js ''bold''), StyledText italic [],
           NormalText (js ''bold''), StyledText italic []]
   \<and> parseTextWithFormatting (js ''**bold** and *italic*'') =
     Some [StyledText bold (js ''bold''), StyledText italic [],
           NormalText (js ''bold''), StyledText italic [],
           NormalText (js '' and ''), StyledText italic (js ''italic'')]
   \<and> parseTextWithFormatting (js ''*a**b**'') =
     Some [StyledText italic (js ''a''), StyledText bold (js ''b''),
           StyledText italic (js ''b''), NormalText (js ''*'')]"
  by (simp add: regex_eval inline_eval)

text \<open>
  C3, as stated, fails: the inner loop stops at the first line that starts with three
  backticks, whatever follows them on that line. A line \<open>```js\<close> inside a code block closes
  it; only the line \<open>a\<close> is collected, and the line \<open>b\<close> becomes a paragraph, while
  collecting up to a line equal to the fence would take all three lines.
\<close>

theorem fence_closed_by_prefix:
  "parseMarkdown (js ''```\<newline>a\<newline>```js\<newline>b'') =
     Some [CodeBlock (js ''a''), Paragraph [Formatted [NormalText (js ''b'')]]]
   \<and> takeWhile (\<lambda>l. l \<noteq> fence) [js ''a'', js ''```js'', js ''b''] = [js ''a'', js ''```js'', js ''b'']
   \<and> parseMarkdown (js ''```\<newline>a\<newline>```js\<newline>b'') \<noteq>
     Some [CodeBlock (join_lines [js ''a'', js ''```js'', js ''b''])]"
  by (simp add: regex_eval inline_eval block_eval)

text \<open>
  C3, amended. After a line that starts with three backticks, the lines up to the next
  line that starts with three backticks are collected as they are, joined into one code
  block, and parsing goes on after that closing line; when no later line starts with three
  backticks the code block takes all the remaining lines and is the last element.
\<close>

theorem code_block_collected:
  assumes "startsWith line fence"
  shows "(\<forall>body close tail.
            rest = body @ close # tail \<and> (\<forall>l\<in>set body. \<not> startsWith l fence)
              \<and> startsWith close fence
            \<longrightarrow> parseLines (line # rest) = push (CodeBlock (join_lines body)) (parseLines tail))
         \<and> ((\<forall>l\<in>set rest. \<not> startsWith l fence)
            \<longrightarrow> parseLines (line # rest) = Some [CodeBlock (join_lines rest)])"
proof (intro conjI allI impI)
  fix body close tail
  assume a: "rest = body @ close # tail \<and> (\<forall>l\<in>set body. \<not> startsWith l fence)
               \<and> startsWith close fence"
  then have t: "takeWhile (\<lambda>l. \<not> startsWith l fence) rest = body"
    and d: "dropWhile (\<lambda>l. \<not> startsWith l fence) rest = close # tail"
    by (simp_all add: takeWhile_append2 dropWhile_append2)
  show "parseLines (line # rest) = push (CodeBlock (join_lines body)) (parseLines tail)"
    unfolding parseLines_fence [OF assms] t d by simp
next
  assume "\<forall>l\<in>set rest. \<not> startsWith l fence"
  then have t: "takeWhile (\<lambda>l. \<not> startsWith l fence) rest = rest"
    and d: "dropWhile (\<lambda>l. \<not> startsWith l fence) rest = []"
    by simp_all
  show "parseLines (line # rest) = Some [CodeBlock (join_lines rest)]"
    unfolding parseLines_fence [OF assms] t d by (simp add: push_def)
qed

theorem code_block_collected_witness:
  "startsWith (js ''```py'') fence
   \<and> parseLines [js ''```py'', js ''# x'', js '''', js ''```js'', js ''b''] =
       push (CodeBlock (js ''# x\<newline>'')) (parseLines [js ''b''])
   \<and> parseLines [js ''```py'', js ''- a'', js ''b''] = Some [CodeBlock (js ''- a\<newline>b'')]"
proof -
  have f: "startsWith (js ''```py'') fence"
    by (simp add: startsWith_def fence_def js_def)
  from code_block_collected [OF f, of "[js ''# x'', js '''', js ''```js'', js ''b'']"]
  have 1: "parseLines [js ''```py'', js ''# x'', js '''', js ''```js'', js ''b''] =
             push (CodeBlock (join_lines [js ''# x'', js ''''])) (parseLines [js ''b''])"
    by (elim conjE allE [of _ "[js ''# x'', js '''']"] allE [of _ "js ''```js''"] allE [of _ "[js ''b'']"])
       (simp add: startsWith_def fence_def js_def)
  from code_block_collected [OF f, of "[js ''- a'', js ''b'']"]
  have 2: "parseLines [js ''```py'', js ''- a'', js ''b''] =
             Some [CodeBlock (join_lines [js ''- a'', js ''b''])]"
    by (simp add: startsWith_def fence_def js_def)
  from f 1 2 show ?thesis by (simp add: js_def)
qed

text \<open>
  C4, as stated, fails: the component looks for the two characters \<open>"> "\<close> anywhere in the
  message, not at the start of a line. The message below has them in the middle of its
  only line and nothing else that the detector looks for.
\<close>

theorem quote_marker_anywhere:
  "hasMarkdown (js ''a > b'') \<and> \<not> needsStructuredParsing (js ''a > b'')"
  by (simp add: hasMarkdown_def needsStructuredParsing_def markdownChars_def js_def startsWith_def
      numberedTest_def is_digit_def)

text \<open>
  C4, amended. \<open>hasMarkdown\<close> holds exactly when the message has one of the eight
  characters, or three backticks in a row, or the two characters \<open>"> "\<close> anywhere, or
  begins with digits, a dot and a white-space character, or has \<open>http://\<close> or \<open>https://\<close>
  somewhere.
\<close>

theorem hasMarkdown_iff:
  "hasMarkdown message \<longleftrightarrow>
     (\<exists>c\<in>set message. c \<in> set (js ''*_`#[]!-''))
     \<or> (\<exists>xs ys. message = xs @ js ''```'' @ ys)
     \<or> (\<exists>xs ys. message = xs @ js ''> '' @ ys)
     \<or> (\<exists>ds w r. message = ds @ js ''.'' @ w # r \<and> ds \<noteq> [] \<and> (\<forall>d\<in>set ds. is_digit d)
           \<and> white_space w)
     \<or> (\<exists>xs ys. message = xs @ js ''http://'' @ ys)
     \<or> (\<exists>xs ys. message = xs @ js ''https://'' @ ys)"
  unfolding hasMarkdown_def markdownChars_def fence_def
    str_includes_iff schemeRegex_test_iff numberedTest_iff list_ex_iff
  by blast

theorem hasMarkdown_iff_witness:
  "hasMarkdown (js ''12. x'') \<and> hasMarkdown (js ''a > b'') \<and> \<not> hasMarkdown (js ''hello world'')"
proof -
  have "js ''12. x'' = js ''12'' @ js ''.'' @ 32 # js ''x'' \<and> js ''12'' \<noteq> []
          \<and> (\<forall>d\<in>set (js ''12''). is_digit d) \<and> white_space 32"
    by (simp add: js_def is_digit_def white_space_def)
  then have 1: "hasMarkdown (js ''12. x'')"
    unfolding hasMarkdown_iff [of "js ''12. x''"] by blast
  have "js ''a > b'' = js ''a '' @ js ''> '' @ js ''b''" by (simp add: js_def)
  then have 2: "hasMarkdown (js ''a > b'')"
    unfolding hasMarkdown_iff [of "js ''a > b''"] by blast
  have 3: "\<not> hasMarkdown (js ''hello world'')"
    by (simp add: hasMarkdown_def markdownChars_def js_def fence_def numberedTest_def
        is_digit_def schemeRegex_def scheme_def)
  from 1 2 3 show ?thesis by simp
qed

text \<open>
  C5. Both scans return. A plain URL is dropped exactly when its offset lies in
  \<open>[start, end)\<close> of a markdown-link match of the same text. \<open>allLinks\<close> is the candidates
  of the markdown-link matches (start and end of the match, its two captures as text and
  URL) followed by the candidates of the plain URLs that are kept (start and end of the
  match, the match as text and as URL), sorted by \<open>start\<close>: its start offsets are the offsets
  of these matches in ascending order, no two of them equal, and it has one candidate for
  each of them.
\<close>

theorem allLinks_merge:
  "\<exists>mds urls kept ls.
     exec_all markdownLinkRegex 0 text = Some mds
     \<and> exec_all urlRegex 0 text = Some urls
     \<and> kept = filter (\<lambda>u. \<not> (\<exists>m\<in>set mds. index m \<le> index u \<and> index u < index m + length (matched m))) urls
     \<and> (\<forall>m\<in>set mds. length (groups m) = 2)
     \<and> ls = sort_key l_start
          (map (\<lambda>m. \<lparr>l_start = index m, l_end = index m + length (matched m),
                      l_text = groups m ! 0, l_url = groups m ! 1, l_type = markdown\<rparr>) mds
           @ map (\<lambda>u. \<lparr>l_start = index u, l_end = index u + length (matched u),
                        l_text = matched u, l_url = matched u, l_type = plain\<rparr>) kept)
     \<and> allLinks text = Some ls
     \<and> map l_start ls = sort (map index mds @ map index kept)
     \<and> sorted_wrt (<) (map l_start ls)
     \<and> length ls = length mds + length kept"
proof -
  obtain mds where m: "exec_all markdownLinkRegex 0 text = Some mds"
    using exec_all_total [of markdownLinkRegex] markdownLinkRegex_progress by blast
  obtain urls where u: "exec_all urlRegex 0 text = Some urls"
    using exec_all_total [of urlRegex] urlRegex_progress by blast
  let ?kept = "filter (\<lambda>u. \<not> (\<exists>m\<in>set mds. index m \<le> index u \<and> index u < index m + length (matched m))) urls"
  let ?md = "\<lambda>m. \<lparr>l_start = index m, l_end = index m + length (matched m),
                 l_text = groups m ! 0, l_url = groups m ! 1, l_type = markdown\<rparr>"
  let ?pl = "\<lambda>u. \<lparr>l_start = index u, l_end = index u + length (matched u),
                 l_text = matched u, l_url = matched u, l_type = plain\<rparr>"
  let ?ls = "sort_key l_start (map ?md mds @ map ?pl ?kept)"
  have shape: "\<exists>t u. groups r = [t, u] \<and> matched r \<noteq> []" if "r \<in> set mds" for r
  proof -
    from exec_all_matches [of markdownLinkRegex, OF markdownLinkRegex_progress m that]
    obtain k where k: "index r = k"
      and p: "markdownLinkRegex (drop k text) = Some (matched r, groups r)"
      by auto
    from markdownLinkRegex_sound [OF p] markdownLinkRegex_progress [OF p]
    show ?thesis by auto
  qed
  then have g2: "\<forall>m\<in>set mds. length (groups m) = 2" by fastforce
  have "markdownLink r = ?md r" if "r \<in> set mds" for r
    using shape [OF that] by (auto simp: markdownLink_def)
  then have mdmap: "map markdownLink mds = map ?md mds" by simp
  have plmap: "plainLink = ?pl"
    by (rule ext) (simp add: plainLink_def)
  have "allLinks text = Some (sort_key l_start (map markdownLink mds @ map plainLink ?kept))"
    by (simp add: allLinks_def m u fold_pushPlainUrl covered_by_markdownLink)
  then have a: "allLinks text = Some ?ls"
    by (simp only: mdmap plmap)
  have starts: "map l_start ?ls = sort (map index mds @ map index ?kept)"
    by (simp add: map_sort_key o_def)
  have dm: "distinct (map index mds)"
    using exec_all_indices [of markdownLinkRegex, OF markdownLinkRegex_progress m]
    by (simp add: strict_sorted_iff)
  have "distinct (map index urls)"
    using exec_all_indices [of urlRegex, OF urlRegex_progress u]
    by (simp add: strict_sorted_iff)
  then have dk: "distinct (map index ?kept)" by (rule distinct_map_filter)
  have disj: "index ` set mds \<inter> index ` set ?kept = {}"
  proof -
    have "index r \<noteq> index v" if r: "r \<in> set mds" and v: "v \<in> set ?kept" for r v
    proof
      assume e: "index r = index v"
      from shape [OF r] have "0 < length (matched r)" by auto
      with e have "index r \<le> index v \<and> index v < index r + length (matched r)" by simp
      with r v show False by auto
    qed
    then show ?thesis by blast
  qed
  from dm dk disj have "distinct (map index mds @ map index ?kept)" by simp
  then have strict: "sorted_wrt (<) (map l_start ?ls)"
    unfolding starts by (simp add: strict_sorted_iff)
  have len: "length ?ls = length mds + length ?kept" by simp
  from m u g2 a starts strict len show ?thesis by blast
qed

theorem allLinks_merge_witness:
  "exec_all markdownLinkRegex 0 (js ''http://x [a](http://c) https://y.z'') =
     Some [\<lparr>index = 9, matched = js ''[a](http://c)'', groups = [js ''a'', js ''http://c'']\<rparr>]
   \<and> exec_all urlRegex 0 (js ''http://x [a](http://c) https://y.z'') =
     Some [\<lparr>index = 0, matched = js ''http://x'', groups = []\<rparr>,
           \<lparr>index = 13, matched = js ''http://c)'', groups = []\<rparr>,
           \<lparr>index = 23, matched = js ''https://y.z'', groups = []\<rparr>]
   \<and> allLinks (js ''http://x [a](http://c) https://y.z'') =
     Some [\<lparr>l_start = 0, l_end = 8, l_text = js ''http://x'', l_url = js ''http://x'',
            l_type = plain\<rparr>,
           \<lparr>l_start = 9, l_end = 22, l_text = js ''a'', l_url = js ''http://c'',
            l_type = markdown\<rparr>,
           \<lparr>l_start = 23, l_end = 34, l_text = js ''https://y.z'', l_url = js ''https://y.z'',
            l_type = plain\<rparr>]
   \<and> allLinks (js ''see [here](https://a.com) now'') =
     Some [\<lparr>l_start = 4, l_end = 25, l_text = js ''here'', l_url = js ''https://a.com'',
            l_type = markdown\<rparr>]"
proof -
  have m: "exec_all markdownLinkRegex 0 (js ''http://x [a](http://c) https://y.z'') =
     Some [\<lparr>index = 9, matched = js ''[a](http://c)'', groups = [js ''a'', js ''http://c'']\<rparr>]"
    by (simp add: regex_eval)
  have u: "exec_all urlRegex 0 (js ''http://x [a](http://c) https://y.z'') =
     Some [\<lparr>index = 0, matched = js ''http://x'', groups = []\<rparr>,
           \<lparr>index = 13, matched = js ''http://c)'', groups = []\<rparr>,
           \<lparr>index = 23, matched = js ''https://y.z'', groups = []\<rparr>]"
    by (simp add: regex_eval)
  from allLinks_merge [of "js ''http://x [a](http://c) https://y.z''"]
  have 1: "allLinks (js ''http://x [a](http://c) https://y.z'') =
     Some [\<lparr>l_start = 0, l_end = 8, l_text = js ''http://x'', l_url = js ''http://x'',
            l_type = plain\<rparr>,
           \<lparr>l_start = 9, l_end = 22, l_text = js ''a'', l_url = js ''http://c'',
            l_type = markdown\<rparr>,
           \<lparr>l_start = 23, l_end = 34, l_text = js ''https://y.z'', l_url = js ''https://y.z'',
            l_type = plain\<rparr>]"
    unfolding m u by (auto simp: js_def)
  have m2: "exec_all markdownLinkRegex 0 (js ''see [here](https://a.com) now'') =
     Some [\<lparr>index = 4, matched = js ''[here](https://a.com)'', groups = [js ''here'', js ''https://a.com'']\<rparr>]"
    by (simp add: regex_eval)
  have u2: "exec_all urlRegex 0 (js ''see [here](https://a.com) now'') =
     Some [\<lparr>index = 11, matched = js ''https://a.com)'', groups = []\<rparr>]"
    by (simp add: regex_eval)
  from allLinks_merge [of "js ''see [here](https://a.com) now''"]
  have 2: "allLinks (js ''see [here](https://a.com) now'') =
     Some [\<lparr>l_start = 4, l_end = 25, l_text = js ''here'', l_url = js ''https://a.com'',
            l_type = markdown\<rparr>]"
    unfolding m2 u2 by (auto simp: js_def)
  from m u 1 2 show ?thesis by simp
qed

text \<open>
  C6. A line that passes the test \<open>/^\d+\.\s/\<close> and fails the match \<open>/^(\d+)\.\s(.*)$/\<close> makes
  the loop push nothing. The first line below ends with a carriage return, which \<open>.\<close> does
  not match and before which \<open>$\<close> does not hold: the message has two lines and the result has
  one element, for the second line, and so has the bubble that is shown.
\<close>

theorem numbered_line_dropped:
  "split_lines (js ''1. first'' @ [13, 10] @ js ''2. second'') = [js ''1. first'' @ [13], js ''2. second'']
   \<and> numberedTest (js ''1. first'' @ [13])
   \<and> numberedMatch (js ''1. first'' @ [13]) = None
   \<and> parseMarkdown (js ''1. first'' @ [13, 10] @ js ''2. second'') =
       Some [NumberedItem (js ''2'') [Formatted [NormalText (js ''second'')]]]
   \<and> MessageBubble (js ''1. first'' @ [13, 10] @ js ''2. second'') False =
       Some (MarkdownContainer
         [NumberedItem (js ''2'') [Formatted [NormalText (js ''second'')]]])"
  by (simp add: MessageBubble_def hasMarkdown_def markdownChars_def regex_eval inline_eval
      block_eval)

text \<open>
  C7, as stated, fails: the capture \<open>(.*?)\<close> may be empty, so a pair of backticks with
  nothing between them is a match of the inline-code expression and gives a styled span
  with empty text.
\<close>

theorem empty_styled_span:
  "parseTextWithFormatting (js ''``'') = Some [StyledText inlineCode []]
   \<and> pattern bold (js ''****'') = Some (js ''****'', [[]])
   \<and> pattern italic (js ''**'') = Some (js ''**'', [[]])"
  by (simp add: regex_eval inline_eval)

text \<open>
  C7, amended. Every match of one of the three scans is the delimiter, a capture and the
  delimiter again, standing in the text at the match's offset; the capture holds no line
  terminator, and it is the shortest possible: the closing delimiter stands at no earlier
  offset after the opening one. The capture may be empty.
\<close>

theorem pattern_shortest_match:
  assumes "exec_all (pattern st) 0 text = Some ms" and "m \<in> set ms"
  shows "\<exists>inner. groups m = [inner]
           \<and> matched m = delimiter st @ inner @ delimiter st
           \<and> prefix (matched m) (drop (index m) text)
           \<and> (\<forall>c\<in>set inner. \<not> line_terminator c)
           \<and> (\<forall>k<length inner.
                 \<not> prefix (delimiter st) (drop (index m + length (delimiter st) + k) text))"
proof -
  from exec_all_matches [of "pattern st", OF pattern_progress assms] obtain k where
    k: "index m = k" and p: "pattern st (drop k text) = Some (matched m, groups m)"
    by auto
  from pattern_sound [OF p] k show ?thesis
    by (auto simp: add.commute add.left_commute)
qed

theorem pattern_shortest_match_witness:
  "exec_all (pattern italic) 0 (js ''a *b* c'') =
     Some [\<lparr>index = 2, matched = js ''*b*'', groups = [js ''b'']\<rparr>]
   \<and> (\<exists>inner. [js ''b''] = [inner]
          \<and> js ''*b*'' = delimiter italic @ inner @ delimiter italic
          \<and> prefix (js ''*b*'') (drop 2 (js ''a *b* c''))
          \<and> (\<forall>c\<in>set inner. \<not> line_terminator c)
          \<and> (\<forall>k<length inner.
                \<not> prefix (delimiter italic) (drop (2 + length (delimiter italic) + k) (js ''a *b* c''))))"
proof -
  have e: "exec_all (pattern italic) 0 (js ''a *b* c'') =
             Some [\<lparr>index = 2, matched = js ''*b*'', groups = [js ''b'']\<rparr>]"
    by (simp add: regex_eval)
  from pattern_shortest_match [OF e, of "\<lparr>index = 2, matched = js ''*b*'', groups = [js ''b'']\<rparr>"]
  show ?thesis using e by (simp add: js_def)
qed

text \<open>
  C8, as stated, fails: the branch of a blockquote puts the rest of the line into the
  tree as it is. The emphasis and the link of the line below stay literal text, while
  \<open>parseInlineMarkdown\<close> on the same text gives an italic span and a link.
\<close>

theorem blockquote_not_resolved:
  "parseMarkdown (js ''> *hi* [x](http://y.z)'') = Some [Blockquote (js ''*hi* [x](http://y.z)'')]
   \<and> parseInlineMarkdown (js ''*hi* [x](http://y.z)'') =
       Some [Formatted [StyledText italic (js ''hi''), NormalText (js '' '')],
             Link (js ''x'') (js ''http://y.z'')]"
  by (simp add: regex_eval inline_eval block_eval)

text \<open>
  C8, amended. A line that begins with \<open>"> "\<close> gives a blockquote holding the rest of the
  line as literal text, whatever markup it has; the three kinds of heading do the same
  with the rest of their lines. With the code block, these are the blocks that do not go
  through \<open>parseInlineMarkdown\<close>.
\<close>

theorem blockquote_literal:
  "(startsWith line (js ''> '') \<longrightarrow>
      parseLines (line # rest) = push (Blockquote (drop 2 line)) (parseLines rest))
   \<and> (startsWith line (js ''# '') \<longrightarrow>
      parseLines (line # rest) = push (H1 (drop 2 line)) (parseLines rest))
   \<and> (startsWith line (js ''## '') \<longrightarrow>
      parseLines (line # rest) = push (H2 (drop 3 line)) (parseLines rest))
   \<and> (startsWith line (js ''### '') \<longrightarrow>
      parseLines (line # rest) = push (H3 (drop 4 line)) (parseLines rest))"
proof (intro conjI impI)
  assume "startsWith line (js ''> '')"
  then show "parseLines (line # rest) = push (Blockquote (drop 2 line)) (parseLines rest)"
    by (rule parseLines_quote)
next
  assume "startsWith line (js ''# '')"
  then show "parseLines (line # rest) = push (H1 (drop 2 line)) (parseLines rest)"
    by (simp add: parseLines.simps)
next
  assume a: "startsWith line (js ''## '')"
  then have "\<not> startsWith line (js ''# '')"
    by (auto simp: startsWith_def js_def prefix_def)
  with a show "parseLines (line # rest) = push (H2 (drop 3 line)) (parseLines rest)"
    by (simp add: parseLines.simps)
next
  assume a: "startsWith line (js ''### '')"
  then have "\<not> startsWith line (js ''# '')" "\<not> startsWith line (js ''## '')"
    by (auto simp: startsWith_def js_def prefix_def)
  with a show "parseLines (line # rest) = push (H3 (drop 4 line)) (parseLines rest)"
    by (simp add: parseLines.simps)
qed

theorem blockquote_literal_witness:
  "startsWith (js ''> **a**'') (js ''> '')
   \<and> parseLines [js ''> **a**''] = Some [Blockquote (js ''**a**'')]
   \<and> parseLines [js ''# *t*''] = Some [H1 (js ''*t*'')]
   \<and> parseLines [js ''## *t*''] = Some [H2 (js ''*t*'')]
   \<and> parseLines [js ''### *t*''] = Some [H3 (js ''*t*'')]"
proof -
  have q: "startsWith (js ''> **a**'') (js ''> '')" by (simp add: startsWith_def js_def)
  have h1: "startsWith (js ''# *t*'') (js ''# '')" by (simp add: startsWith_def js_def)
  have h2: "startsWith (js ''## *t*'') (js ''## '')" by (simp add: startsWith_def js_def)
  have h3: "startsWith (js ''### *t*'') (js ''### '')" by (simp add: startsWith_def js_def)
  from blockquote_literal [of "js ''> **a**''" "[]"] q
  have 1: "parseLines [js ''> **a**''] = Some [Blockquote (js ''**a**'')]"
    by (simp add: push_def js_def)
  from blockquote_literal [of "js ''# *t*''" "[]"] h1
  have 2: "parseLines [js ''# *t*''] = Some [H1 (js ''*t*'')]"
    by (simp add: push_def js_def)
  from blockquote_literal [of "js ''## *t*''" "[]"] h2
  have 3: "parseLines [js ''## *t*''] = Some [H2 (js ''*t*'')]"
    by (simp add: push_def js_def)
  from blockquote_literal [of "js ''### *t*''" "[]"] h3
  have 4: "parseLines [js ''### *t*''] = Some [H3 (js ''*t*'')]"
    by (simp add: push_def js_def)
  from q 1 2 3 4 show ?thesis by simp
qed

text \<open>
  C9. The component returns for every message and either value of \<open>isUser\<close>, and so does
  each stage on every text it is given: the block parser, the link extraction, the inline
  parser and the emphasis parser. None of the \<open>exec\<close> loops runs forever, since no match of
  the five expressions is empty, and the model has no other way not to return.
\<close>

theorem MessageBubble_returns:
  "(\<exists>b. MessageBubble message isUser = Some b)
   \<and> (\<exists>es. parseMarkdown message = Some es)
   \<and> (\<exists>ls. allLinks message = Some ls)
   \<and> (\<exists>t. parseInlineMarkdown message = Some t)
   \<and> (\<exists>f. parseTextWithFormatting message = Some f)"
proof -
  obtain es where es: "parseMarkdown message = Some es"
    using parseMarkdown_total by blast
  then have "\<exists>b. MessageBubble message isUser = Some b"
    by (simp add: MessageBubble_def)
  with es show ?thesis
    using allLinks_total parseInlineMarkdown_total parseTextWithFormatting_total by blast
qed

text \<open>
  C10. Every match of the markdown-link expression is an opening bracket, a display text
  without closing bracket, \<open>](\<close>, a target without closing parenthesis, and a closing
  parenthesis, with display text and target both non-empty; so every markdown link of
  \<open>allLinks\<close> has a non-empty text and a non-empty URL.
\<close>

theorem markdown_link_nonempty:
  "\<exists>mds ls.
     exec_all markdownLinkRegex 0 text = Some mds
     \<and> (\<forall>m\<in>set mds. \<exists>t u.
           groups m = [t, u] \<and> t \<noteq> [] \<and> u \<noteq> []
           \<and> (\<forall>c\<in>set t. [c] \<noteq> js '']'') \<and> (\<forall>c\<in>set u. [c] \<noteq> js '')'')
           \<and> matched m = js ''['' @ t @ js '']('' @ u @ js '')''
           \<and> prefix (matched m) (drop (index m) text))
     \<and> allLinks text = Some ls
     \<and> (\<forall>l\<in>set ls. l_type l = markdown \<longrightarrow> l_text l \<noteq> [] \<and> l_url l \<noteq> [])"
proof -
  obtain mds where m: "exec_all markdownLinkRegex 0 text = Some mds"
    using exec_all_total [of markdownLinkRegex] markdownLinkRegex_progress by blast
  obtain urls where u: "exec_all urlRegex 0 text = Some urls"
    using exec_all_total [of urlRegex] urlRegex_progress by blast
  have shape: "\<exists>t u. groups r = [t, u] \<and> t \<noteq> [] \<and> u \<noteq> []
           \<and> (\<forall>c\<in>set t. [c] \<noteq> js '']'') \<and> (\<forall>c\<in>set u. [c] \<noteq> js '')'')
           \<and> matched r = js ''['' @ t @ js '']('' @ u @ js '')''
           \<and> prefix (matched r) (drop (index r) text)" if r: "r \<in> set mds" for r
  proof -
    from exec_all_matches [of markdownLinkRegex, OF markdownLinkRegex_progress m r]
    obtain k where k: "index r = k"
      and p: "markdownLinkRegex (drop k text) = Some (matched r, groups r)"
      by auto
    from markdownLinkRegex_sound [OF p] k show ?thesis by auto
  qed
  let ?ls = "sort_key l_start (fold pushPlainUrl urls (map markdownLink mds))"
  have a: "allLinks text = Some ?ls" by (simp add: allLinks_def m u)
  have "l_text l \<noteq> [] \<and> l_url l \<noteq> []" if l: "l \<in> set ?ls" and ty: "l_type l = markdown" for l
  proof -
    from l ty obtain r where r: "r \<in> set mds" and lr: "l = markdownLink r"
      by (auto simp: fold_pushPlainUrl plainLink_def)
    from shape [OF r] lr show ?thesis by (auto simp: markdownLink_def)
  qed
  with shape a m show ?thesis by blast
qed

theorem markdown_link_nonempty_witness:
  "exec_all markdownLinkRegex 0 (js ''[x](y) [](https://a.com) [text]()'') =
     Some [\<lparr>index = 0, matched = js ''[x](y)'', groups = [js ''x'', js ''y'']\<rparr>]
   \<and> allLinks (js ''[x](y) [](https://a.com) [text]()'') =
     Some [\<lparr>l_start = 0, l_end = 6, l_text = js ''x'', l_url = js ''y'', l_type = markdown\<rparr>,
           \<lparr>l_start = 10, l_end = 24, l_text = js ''https://a.com)'', l_url = js ''https://a.com)'',
            l_type = plain\<rparr>]
   \<and> exec_all markdownLinkRegex 0 (js ''[](https://a.com)'') = Some []
   \<and> exec_all markdownLinkRegex 0 (js ''[text]()'') = Some []
   \<and> (\<exists>t u. [js ''x'', js ''y''] = [t, u] \<and> t \<noteq> [] \<and> u \<noteq> [])"
proof -
  have m: "exec_all markdownLinkRegex 0 (js ''[x](y) [](https://a.com) [text]()'') =
     Some [\<lparr>index = 0, matched = js ''[x](y)'', groups = [js ''x'', js ''y'']\<rparr>]"
    by (simp add: regex_eval)
  have a: "allLinks (js ''[x](y) [](https://a.com) [text]()'') =
     Some [\<lparr>l_start = 0, l_end = 6, l_text = js ''x'', l_url = js ''y'', l_type = markdown\<rparr>,
           \<lparr>l_start = 10, l_end = 24, l_text = js ''https://a.com)'', l_url = js ''https://a.com)'',
            l_type = plain\<rparr>]"
    by (simp add: regex_eval inline_eval)
  have e1: "exec_all markdownLinkRegex 0 (js ''[](https://a.com)'') = Some []"
    by (simp add: regex_eval)
  have e2: "exec_all markdownLinkRegex 0 (js ''[text]()'') = Some []"
    by (simp add: regex_eval)
  from markdown_link_nonempty [of "js ''[x](y) [](https://a.com) [text]()''"]
  have "\<exists>t u. [js ''x'', js ''y''] = [t, u] \<and> t \<noteq> [] \<and> u \<noteq> []"
    unfolding m by auto
  with m a e1 e2 show ?thesis by simp
qed

end
